theory Spec2Isabelle
  imports Complex_Main "HOL-Library.Char_ord" "HOL-Library.List_Lexorder" "HOL-Library.Multiset"
    "HOL-Library.Sublist"
begin

section \<open>Values, strings and errors\<close>

text \<open>
  A Python \<open>str\<close> is modelled as a \<open>string\<close> whose characters stand for the code points
  0..255 (Latin-1), one \<open>char\<close> per code point, so that \<open>length\<close> is Python's \<open>len\<close>
  and the order of \<open>HOL-Library.List_Lexorder\<close> over \<open>HOL-Library.Char_ord\<close> is
  Python's comparison of strings. A value handed to the normalizer is either a \<open>str\<close> or
  something else (\<open>None\<close>, the \<open>NaN\<close> that pandas gives a missing cell, a number).
  Python floats are modelled by exact reals.
\<close>

datatype py_value = PyStr string | PyNotStr

datatype py_error = ZeroDivisionError | ValueError

subsection \<open>\<open>str.strip()\<close> and \<open>str.lower()\<close>\<close>

definition is_space :: "char \<Rightarrow> bool" where
  "is_space c =
     (let n = (of_char c :: nat)
      in (9 \<le> n \<and> n \<le> 13) \<or> (28 \<le> n \<and> n \<le> 32) \<or> n = 133 \<or> n = 160)"

definition lower_char :: "char \<Rightarrow> char" where
  "lower_char c =
     (let n = (of_char c :: nat)
      in if (65 \<le> n \<and> n \<le> 90) \<or> (192 \<le> n \<and> n \<le> 222 \<and> n \<noteq> 215)
         then char_of (n + 32) else c)"

definition str_strip :: "string \<Rightarrow> string" where
  "str_strip s = rev (dropWhile is_space (rev (dropWhile is_space s)))"

definition str_lower :: "string \<Rightarrow> string" where
  "str_lower s = map lower_char s"

section \<open>Normalizer\<close>

text \<open>
  \<^verbatim>\<open>
  def preprocess_name(name: str) -> str:
      return name.strip().lower() if isinstance(name, str) else ''
  \<close>
\<close>

fun preprocess_name :: "py_value \<Rightarrow> string" where
  "preprocess_name (PyStr name) = str_lower (str_strip name)"
| "preprocess_name PyNotStr = ''''"

section \<open>Similarity scorer\<close>

text \<open>
  The four primitives come from the library \<open>jellyfish\<close>, which is not part of the
  repository; the scorer takes them as a parameter.
  \<^verbatim>\<open>
  def get_similarity_score(name1, name2):
      name1, name2 = preprocess_name(name1), preprocess_name(name2)
      soundex_score = soundex(name1) == soundex(name2)
      metaphone_score = metaphone(name1) == metaphone(name2)
      levenshtein_score = levenshtein_distance(name1, name2)
      jaro_winkler_score = jaro_winkler_similarity(name1, name2)
      score = (soundex_score * 0.2 +
               metaphone_score * 0.2 +
               (1 - levenshtein_score / max(len(name1), len(name2))) * 0.3 +
               jaro_winkler_score * 0.3)
      return score
  \<close>
  Python's \<open>/\<close> raises \<open>ZeroDivisionError\<close> when the divisor is 0, whatever the dividend.
\<close>

record provider =
  soundex :: "string \<Rightarrow> string"
  metaphone :: "string \<Rightarrow> string"
  levenshtein_distance :: "string \<Rightarrow> string \<Rightarrow> nat"
  jaro_winkler_similarity :: "string \<Rightarrow> string \<Rightarrow> real"

definition get_similarity_score :: "provider \<Rightarrow> py_value \<Rightarrow> py_value \<Rightarrow> py_error + real" where
  "get_similarity_score P name1 name2 =
     (let n1 = preprocess_name name1;
          n2 = preprocess_name name2;
          soundex_score = (soundex P n1 = soundex P n2);
          metaphone_score = (metaphone P n1 = metaphone P n2);
          levenshtein_score = levenshtein_distance P n1 n2;
          jaro_winkler_score = jaro_winkler_similarity P n1 n2
      in if max (length n1) (length n2) = 0 then Inl ZeroDivisionError
         else Inr (of_bool soundex_score * 0.2 +
                   of_bool metaphone_score * 0.2 +
                   (1 - real levenshtein_score / real (max (length n1) (length n2))) * 0.3 +
                   jaro_winkler_score * 0.3))"

section \<open>Dictionaries of lists\<close>

text \<open>
  A \<open>defaultdict(list)\<close> keeps its keys in the order of their first insertion, and the
  code iterates over it, so it is an association list with distinct keys.
  \<open>dict_extend d k ws\<close> is \<open>d[k].extend(ws)\<close> and \<open>dict_append d k v\<close> is
  \<open>d[k].append(v)\<close>: both create the key, at the end, when it is absent.
\<close>

type_synonym match_map = "(string \<times> string list) list"

fun dict_extend :: "match_map \<Rightarrow> string \<Rightarrow> string list \<Rightarrow> match_map" where
  "dict_extend [] k ws = [(k, ws)]"
| "dict_extend ((k', vs) # d) k ws =
     (if k' = k then (k', vs @ ws) # d else (k', vs) # dict_extend d k ws)"

definition dict_append :: "match_map \<Rightarrow> string \<Rightarrow> string \<Rightarrow> match_map" where
  "dict_append d k v = dict_extend d k [v]"

definition dict_get :: "match_map \<Rightarrow> string \<Rightarrow> string list" where
  "dict_get d k = (case map_of d k of None \<Rightarrow> [] | Some vs \<Rightarrow> vs)"

section \<open>Blocking partitioner\<close>

text \<open>
  \<^verbatim>\<open>
  def block_names(df):
      blocks = defaultdict(list)
      for _, row in df.iterrows():
          first_letter = row['name'][0] if row['name'] else ''
          blocks[first_letter].append(row['name'])
      return blocks
  \<close>
  The data frame is the list of its \<open>name\<close> cells, which the notebook has normalized
  before it calls \<open>block_names\<close>, so they are strings.
\<close>

definition first_letter :: "string \<Rightarrow> string" where
  "first_letter name = (if name \<noteq> [] then [hd name] else [])"

fun block_names_loop :: "match_map \<Rightarrow> string list \<Rightarrow> match_map" where
  "block_names_loop blocks [] = blocks"
| "block_names_loop blocks (name # rows) =
     block_names_loop (dict_append blocks (first_letter name) name) rows"

definition block_names :: "string list \<Rightarrow> match_map" where
  "block_names df = block_names_loop [] df"

section \<open>Chunk comparator\<close>

text \<open>\<open>itertools.combinations(chunk, 2)\<close>: the pairs of positions \<open>i < j\<close>, in order.\<close>

fun combinations2 :: "'a list \<Rightarrow> ('a \<times> 'a) list" where
  "combinations2 [] = []"
| "combinations2 (x # xs) = map (Pair x) xs @ combinations2 xs"

text \<open>
  \<open>f"{score:.2f}"\<close>: the sign, the integer part and two decimals of the score rounded to
  the nearest hundredth, a tie going to the even one.
\<close>

definition round_half_even :: "real \<Rightarrow> int" where
  "round_half_even x =
     (let f = \<lfloor>x\<rfloor>; d = x - of_int f
      in if d < 1 / 2 then f else if 1 / 2 < d then f + 1 else if even f then f else f + 1)"

definition digit_char :: "nat \<Rightarrow> char" where
  "digit_char n = char_of (48 + n)"

function digits :: "nat \<Rightarrow> string" where
  "digits n = (if n < 10 then [digit_char n] else digits (n div 10) @ [digit_char (n mod 10)])"
  by pat_completeness auto
termination
  by (relation "measure (\<lambda>n. n)") auto

declare digits.simps [simp del]

definition format_2f :: "real \<Rightarrow> string" where
  "format_2f x =
     (let c = nat (round_half_even (\<bar>x\<bar> * 100))
      in (if x < 0 then ''-'' else []) @ digits (c div 100) @ ''.'' @
         [digit_char (c mod 100 div 10), digit_char (c mod 10)])"

definition match_record :: "string \<Rightarrow> real \<Rightarrow> string" where
  "match_record name score = name @ '' ('' @ format_2f score @ '')''"

text \<open>
  \<^verbatim>\<open>
  def process_chunk(chunk, threshold=0.8):
      potential_duplicates = defaultdict(list)
      seen_pairs = set()
      for name1, name2 in itertools.combinations(chunk, 2):
          if name1 > name2:
              name1, name2 = name2, name1
          pair = (name1, name2)
          if pair not in seen_pairs:
              score = get_similarity_score(name1, name2)
              if score > threshold and score < 1.00:
                  potential_duplicates[name1].append(f"{name2} ({score:.2f})")
                  potential_duplicates[name2].append(f"{name1} ({score:.2f})")
              seen_pairs.add(pair)
      return potential_duplicates
  \<close>
  The state of the loop is the pair of \<open>potential_duplicates\<close> and \<open>seen_pairs\<close>. A pair
  is scored exactly when it enters \<open>seen_pairs\<close>, so the final \<open>seen_pairs\<close> is the set
  of the pairs the comparator has scored.
\<close>

type_synonym chunk_state = "match_map \<times> (string \<times> string) set"

definition canonical_pair :: "string \<times> string \<Rightarrow> string \<times> string" where
  "canonical_pair p = (if fst p > snd p then (snd p, fst p) else p)"

definition process_pair :: "provider \<Rightarrow> real \<Rightarrow> chunk_state \<Rightarrow> string \<times> string \<Rightarrow> py_error + chunk_state" where
  "process_pair P threshold st p =
     (let potential_duplicates = fst st; seen_pairs = snd st;
          name1 = fst (canonical_pair p); name2 = snd (canonical_pair p);
          pair = (name1, name2)
      in if pair \<notin> seen_pairs then
           (case get_similarity_score P (PyStr name1) (PyStr name2) of
              Inl e \<Rightarrow> Inl e
            | Inr score \<Rightarrow>
                Inr (if score > threshold \<and> score < 1
                     then dict_append (dict_append potential_duplicates name1 (match_record name2 score))
                            name2 (match_record name1 score)
                     else potential_duplicates,
                     insert pair seen_pairs))
         else Inr st)"

fun process_pairs :: "provider \<Rightarrow> real \<Rightarrow> chunk_state \<Rightarrow> (string \<times> string) list \<Rightarrow> py_error + chunk_state" where
  "process_pairs P threshold st [] = Inr st"
| "process_pairs P threshold st (p # ps) =
     (case process_pair P threshold st p of
        Inl e \<Rightarrow> Inl e
      | Inr st' \<Rightarrow> process_pairs P threshold st' ps)"

definition process_chunk_state :: "provider \<Rightarrow> string list \<Rightarrow> real \<Rightarrow> py_error + chunk_state" where
  "process_chunk_state P chunk threshold = process_pairs P threshold ([], {}) (combinations2 chunk)"

definition process_chunk :: "provider \<Rightarrow> string list \<Rightarrow> real \<Rightarrow> py_error + match_map" where
  "process_chunk P chunk threshold =
     (case process_chunk_state P chunk threshold of Inl e \<Rightarrow> Inl e | Inr st \<Rightarrow> Inr (fst st))"

section \<open>Parallel orchestrator\<close>

text \<open>
  \<^verbatim>\<open>
  def process_block_with_threads(names, threshold=0.8, chunk_size=1000):
      potential_duplicates = defaultdict(list)
      with ThreadPoolExecutor() as executor:
          futures = []
          for i in range(0, len(names), chunk_size):
              chunk = names[i:i + chunk_size]
              futures.append(executor.submit(process_chunk, chunk, threshold))
          for future in futures:
              result = future.result()
              for key, value in result.items():
                  potential_duplicates[key].extend(value)
      return potential_duplicates
  \<close>
  \<open>range(0, n, step)\<close> raises \<open>ValueError\<close> for a step of 0 and is empty for a negative
  step. The futures are read in the order of their submission, and \<open>future.result()\<close>
  raises again what the chunk has raised, so the merge is a loop over the results in order
  that stops at the first error.
\<close>

function range_from :: "nat \<Rightarrow> nat \<Rightarrow> nat \<Rightarrow> nat list" where
  "range_from i stop step =
     (if step = 0 \<or> stop \<le> i then [] else i # range_from (i + step) stop step)"
  by pat_completeness auto
termination
  by (relation "measure (\<lambda>(i, stop, step). stop - i)") auto

declare range_from.simps [simp del]

definition slice :: "'a list \<Rightarrow> nat \<Rightarrow> nat \<Rightarrow> 'a list" where
  "slice xs i j = take (j - i) (drop i xs)"

definition chunks :: "'a list \<Rightarrow> int \<Rightarrow> py_error + 'a list list" where
  "chunks names chunk_size =
     (if chunk_size = 0 then Inl ValueError
      else if chunk_size < 0 then Inr []
      else Inr (map (\<lambda>i. slice names i (i + nat chunk_size))
                  (range_from 0 (length names) (nat chunk_size))))"

fun merge_result :: "match_map \<Rightarrow> match_map \<Rightarrow> match_map" where
  "merge_result potential_duplicates [] = potential_duplicates"
| "merge_result potential_duplicates ((key, val) # result) =
     merge_result (dict_extend potential_duplicates key val) result"

fun merge_futures :: "match_map \<Rightarrow> (py_error + match_map) list \<Rightarrow> py_error + match_map" where
  "merge_futures potential_duplicates [] = Inr potential_duplicates"
| "merge_futures potential_duplicates (future # futures) =
     (case future of
        Inl e \<Rightarrow> Inl e
      | Inr result \<Rightarrow> merge_futures (merge_result potential_duplicates result) futures)"

definition process_block_with_threads :: "provider \<Rightarrow> string list \<Rightarrow> real \<Rightarrow> int \<Rightarrow> py_error + match_map" where
  "process_block_with_threads P names threshold chunk_size =
     (case chunks names chunk_size of
        Inl e \<Rightarrow> Inl e
      | Inr cs \<Rightarrow> merge_futures [] (map (\<lambda>chunk. process_chunk P chunk threshold) cs))"

text \<open>
  \<^verbatim>\<open>
  all_potential_duplicates = defaultdict(list)
  with ProcessPoolExecutor() as executor:
      futures = []
      for names in blocked_org_members.values():
          futures.append(executor.submit(process_block_with_threads, names))
      for future in futures:
          result = future.result()
          for key, value in result.items():
              all_potential_duplicates[key].extend(value)
  \<close>
  Every block runs with the defaults, a threshold of 0.8 and chunks of 1000 names.
\<close>

definition all_potential_duplicates :: "provider \<Rightarrow> match_map \<Rightarrow> py_error + match_map" where
  "all_potential_duplicates P blocked_org_members =
     merge_futures []
       (map (\<lambda>names. process_block_with_threads P names (8 / 10) 1000)
          (map snd blocked_org_members))"

section \<open>Cluster consolidator\<close>

text \<open>
  \<^verbatim>\<open>
  clusters = []
  visited = set()
  for key, similars in all_potential_duplicates.items():
      if key not in visited:
          cluster = [key] + similars
          unique_cluster = sorted(set(cluster), key=str.lower)
          visited.update(preprocess_name(name.split(' (')[0]) for name in unique_cluster)
          clusters.append(unique_cluster)
  clusters.sort(key=lambda x: x[0])
  \<close>
  \<open>name.split(' (')[0]\<close> is the part of \<open>name\<close> before the first \<open>" ("\<close>, all of it
  when there is none. Python leaves open the order in which \<open>sorted\<close> meets the members of
  the set, which shows only between two members with the same lower-case text; here they
  come in the order of the cluster. The theorems below speak of membership only.
\<close>

fun split_head :: "string \<Rightarrow> string" where
  "split_head (a # b # cs) =
     (if a = CHR '' '' \<and> b = CHR ''('' then [] else a # split_head (b # cs))"
| "split_head cs = cs"

definition base_name :: "string \<Rightarrow> string" where
  "base_name name = preprocess_name (PyStr (split_head name))"

definition unique_cluster :: "string \<Rightarrow> string list \<Rightarrow> string list" where
  "unique_cluster key similars = sort_key str_lower (remdups (key # similars))"

type_synonym consolidator_state = "string list list \<times> string set"

fun consolidate_loop :: "consolidator_state \<Rightarrow> match_map \<Rightarrow> consolidator_state" where
  "consolidate_loop st [] = st"
| "consolidate_loop (clusters, visited) ((key, similars) # items) =
     (if key \<notin> visited
      then consolidate_loop
             (clusters @ [unique_cluster key similars],
              visited \<union> base_name ` set (unique_cluster key similars))
             items
      else consolidate_loop (clusters, visited) items)"

definition consolidate :: "match_map \<Rightarrow> string list list" where
  "consolidate all_duplicates = fst (consolidate_loop ([], {}) all_duplicates)"

definition sort_clusters :: "string list list \<Rightarrow> string list list" where
  "sort_clusters clusters = sort_key hd clusters"

text \<open>The notebook from the raw \<open>name\<close> column to the sorted clusters.\<close>

definition detect_duplicates :: "provider \<Rightarrow> py_value list \<Rightarrow> py_error + string list list" where
  "detect_duplicates P raw_names =
     (case all_potential_duplicates P (block_names (map preprocess_name raw_names)) of
        Inl e \<Rightarrow> Inl e
      | Inr all_duplicates \<Rightarrow> Inr (sort_clusters (consolidate all_duplicates)))"

text \<open>
  The base names of a cluster, and the property that no name is a member of two clusters
  of a list: the base names of all clusters, each cluster's taken once, are distinct.
\<close>

definition cluster_base_names :: "string list \<Rightarrow> string list" where
  "cluster_base_names cluster = remdups (map base_name cluster)"

definition names_in_one_cluster :: "string list list \<Rightarrow> bool" where
  "names_in_one_cluster clusters = distinct (concat (map cluster_base_names clusters))"

section \<open>A provider to run the definitions on\<close>

text \<open>
  The theorems hold for every provider. To evaluate the definitions on concrete names, this
  one takes the first letter for both phonetic codes, the number of positions at which two
  names differ for the edit distance, and the share of the common prefix for the alignment
  similarity.
\<close>

fun mismatches :: "string \<Rightarrow> string \<Rightarrow> nat" where
  "mismatches [] ys = length ys"
| "mismatches xs [] = length xs"
| "mismatches (x # xs) (y # ys) = (if x = y then 0 else 1) + mismatches xs ys"

fun common_prefix :: "string \<Rightarrow> string \<Rightarrow> nat" where
  "common_prefix (x # xs) (y # ys) = (if x = y then Suc (common_prefix xs ys) else 0)"
| "common_prefix xs ys = 0"

definition sample_provider :: provider where
  "sample_provider =
     \<lparr>soundex = take 1, metaphone = take 1, levenshtein_distance = mismatches,
      jaro_winkler_similarity =
        (\<lambda>a b. if a = [] \<or> b = [] then 0
               else real (common_prefix a b) / real (max (length a) (length b)))\<rparr>"


text \<open>A Match Map in which \<open>abcdf\<close> matches both other names, which do not match.\<close>

definition sample_match_map :: match_map where
  "sample_match_map =
     [(''abcde'', [''abcdf (0.88)'']),
      (''abcdf'', [''abcde (0.88)'', ''abcgf (0.82)'']),
      (''abcgf'', [''abcdf (0.82)''])]"

text \<open>
  A plain name: a normalized name in which \<open>" ("\<close>, a space followed by an opening
  parenthesis, does not occur.
\<close>

definition plain_name :: "string \<Rightarrow> bool" where
  "plain_name name \<longleftrightarrow> preprocess_name (PyStr name) = name \<and> \<not> sublist '' ('' name"

section \<open>Invariants of the chunk comparator\<close>

text \<open>
  The pairs the comparator has scored on a chunk: the final \<open>seen_pairs\<close> (none when
  the comparator has raised).
\<close>

definition scored_pairs :: "provider \<Rightarrow> string list \<Rightarrow> real \<Rightarrow> (string \<times> string) set" where
  "scored_pairs P chunk threshold =
     (case process_chunk_state P chunk threshold of Inl e \<Rightarrow> {} | Inr st \<Rightarrow> snd st)"

text \<open>
  What the loop of \<open>process_chunk\<close> keeps true of its state: every string in the list of
  a name \<open>k\<close> is the record of a name \<open>n\<close> with a score between the threshold and 1,
  which is the score of the canonical pair of \<open>k\<close> and \<open>n\<close>, a pair already seen, and
  the list of \<open>n\<close> holds the record of \<open>k\<close> with that score; and every seen pair with
  such a score has its two records.
\<close>

definition chunk_inv :: "provider \<Rightarrow> real \<Rightarrow> chunk_state \<Rightarrow> bool" where
  "chunk_inv P t st \<longleftrightarrow>
     (\<forall>k e. e \<in> set (dict_get (fst st) k) \<longrightarrow>
        (\<exists>n s. e = match_record n s \<and> t < s \<and> s < 1 \<and>
           canonical_pair (k, n) \<in> snd st \<and>
           get_similarity_score P (PyStr (fst (canonical_pair (k, n))))
             (PyStr (snd (canonical_pair (k, n)))) = Inr s \<and>
           match_record k s \<in> set (dict_get (fst st) n))) \<and>
     (\<forall>a b s. (a, b) \<in> snd st \<and> get_similarity_score P (PyStr a) (PyStr b) = Inr s \<and>
        t < s \<and> s < 1 \<longrightarrow>
        match_record b s \<in> set (dict_get (fst st) a) \<and>
        match_record a s \<in> set (dict_get (fst st) b))"

text \<open>
  A string in the list of \<open>k\<close> that is the record of a match of \<open>k\<close>, and a dictionary
  that holds only such records and no empty list.
\<close>

definition is_record :: "provider \<Rightarrow> real \<Rightarrow> string \<Rightarrow> string \<Rightarrow> bool" where
  "is_record P t k v \<longleftrightarrow>
     (\<exists>n s. v = match_record n s \<and> t < s \<and> s < 1 \<and>
        get_similarity_score P (PyStr (fst (canonical_pair (k, n))))
          (PyStr (snd (canonical_pair (k, n)))) = Inr s)"

definition all_records :: "provider \<Rightarrow> real \<Rightarrow> match_map \<Rightarrow> bool" where
  "all_records P t d \<longleftrightarrow> (\<forall>(k, vs) \<in> set d. vs \<noteq> [] \<and> (\<forall>v \<in> set vs. is_record P t k v))"

text \<open>A dictionary with distinct keys and no empty list.\<close>

definition nonempty_lists :: "match_map \<Rightarrow> bool" where
  "nonempty_lists d \<longleftrightarrow> distinct (map fst d) \<and> (\<forall>(k, vs) \<in> set d. vs \<noteq> [])"

section \<open>Properties of the normalizer\<close>

lemma is_space_lower_char: "is_space (lower_char c) = is_space c"
  by (auto simp: is_space_def lower_char_def Let_def)

lemma lower_char_idem: "lower_char (lower_char c) = lower_char c"
  by (auto simp: lower_char_def Let_def)

lemma str_lower_idem: "str_lower (str_lower s) = str_lower s"
  by (simp add: str_lower_def lower_char_idem)

lemma dropWhile_space_lower:
  "dropWhile is_space (map lower_char s) = map lower_char (dropWhile is_space s)"
  by (induction s) (simp_all add: is_space_lower_char)

lemma str_strip_lower: "str_strip (str_lower s) = str_lower (str_strip s)"
  by (simp add: str_strip_def str_lower_def dropWhile_space_lower rev_map)

lemma dropWhile_front_kept:
  "xs = [] \<or> \<not> P (hd xs) \<Longrightarrow>
     dropWhile P (rev (dropWhile P (rev xs))) = rev (dropWhile P (rev xs))"
  by (cases xs) (simp_all add: dropWhile_append)

lemma dropWhile_front_fixed:
  "dropWhile P (rev (dropWhile P (rev (dropWhile P s)))) = rev (dropWhile P (rev (dropWhile P s)))"
proof (rule dropWhile_front_kept)
  show "dropWhile P s = [] \<or> \<not> P (hd (dropWhile P s))"
    using hd_dropWhile [of P s] by blast
qed

lemma str_strip_idem: "str_strip (str_strip s) = str_strip s"
  by (simp add: str_strip_def dropWhile_front_fixed)

lemma preprocess_name_normalized:
  "preprocess_name (PyStr (preprocess_name x)) = preprocess_name x"
proof (cases x)
  case (PyStr s)
  have "str_lower (str_strip (str_lower (str_strip s))) = str_lower (str_lower (str_strip (str_strip s)))"
    by (simp add: str_strip_lower)
  then show ?thesis
    using PyStr by (simp add: str_lower_idem str_strip_idem)
next
  case PyNotStr
  then show ?thesis by (simp add: str_lower_def str_strip_def)
qed

text \<open>
  C8. The normalizer is idempotent: normalizing an already normalized name (a \<open>str\<close>)
  gives the same name, for every input value, string or not. It is a function of its
  argument alone.
\<close>

theorem preprocess_name_idempotent:
  "preprocess_name (PyStr (preprocess_name x)) = preprocess_name x"
  by (rule preprocess_name_normalized)

section \<open>Properties of the similarity scorer\<close>

text \<open>
  C2. Two names that both normalize to the empty string: the scorer divides by
  \<open>max(len(name1), len(name2)) = 0\<close> and raises \<open>ZeroDivisionError\<close>, whatever the
  provider; it does not return 1.0. Two rows without a name reach it through the block of
  the empty key, and the whole run ends with the error.
\<close>

theorem get_similarity_score_empty_raises:
  "get_similarity_score P (PyStr '''') (PyStr '''') = Inl ZeroDivisionError \<and>
   get_similarity_score P PyNotStr PyNotStr = Inl ZeroDivisionError \<and>
   detect_duplicates P [PyNotStr, PyNotStr] = Inl ZeroDivisionError"
proof -
  have e: "get_similarity_score P (PyStr '''') (PyStr '''') = Inl ZeroDivisionError"
    by (simp add: get_similarity_score_def str_lower_def str_strip_def)
  have n: "get_similarity_score P PyNotStr PyNotStr = Inl ZeroDivisionError"
    by (simp add: get_similarity_score_def)
  have b: "block_names [[], []] = [('''', ['''', ''''])]"
    by (simp add: block_names_def dict_append_def first_letter_def)
  have c: "chunks ['''', ''''] 1000 = Inr [['''', '''']]"
    by (simp add: chunks_def slice_def range_from.simps [of 0] range_from.simps [of 1000])
  have p: "process_chunk P ['''', ''''] t = Inl ZeroDivisionError" for t
    by (simp add: process_chunk_def process_chunk_state_def process_pair_def
        canonical_pair_def e)
  have "detect_duplicates P [PyNotStr, PyNotStr] = Inl ZeroDivisionError"
    by (simp add: detect_duplicates_def all_potential_duplicates_def
        process_block_with_threads_def b c p)
  with e n show ?thesis by simp
qed

text \<open>Apart from that case the scorer returns a score.\<close>

lemma get_similarity_score_defined:
  "(\<exists>s. get_similarity_score P a b = Inr s) \<longleftrightarrow>
     preprocess_name a \<noteq> [] \<or> preprocess_name b \<noteq> []"
  by (auto simp: get_similarity_score_def Let_def)

text \<open>
  C10. The scorer gives the same result, a score or the error, on two values and on their
  normalized forms.
\<close>

theorem get_similarity_score_prenormalized:
  "get_similarity_score P a b =
     get_similarity_score P (PyStr (preprocess_name a)) (PyStr (preprocess_name b))"
  by (simp only: get_similarity_score_def preprocess_name_normalized)




section \<open>Properties of the dictionaries and of the blocking partitioner\<close>

lemma dict_extend_keys: "fst ` set (dict_extend d k ws) = insert k (fst ` set d)"
  by (induction d k ws rule: dict_extend.induct) auto

lemma dict_extend_distinct:
  "distinct (map fst d) \<Longrightarrow> distinct (map fst (dict_extend d k ws))"
  by (induction d k ws rule: dict_extend.induct) (auto simp: dict_extend_keys)

lemma map_of_dict_extend:
  "map_of (dict_extend d k ws) = (map_of d)(k \<mapsto> dict_get d k @ ws)"
  by (induction d k ws rule: dict_extend.induct) (auto simp: dict_get_def)

lemma dict_get_extend:
  "dict_get (dict_extend d k ws) k' = (if k' = k then dict_get d k @ ws else dict_get d k')"
  by (simp add: dict_get_def map_of_dict_extend)

lemma mset_dict_extend:
  "mset (concat (map snd (dict_extend d k ws))) = mset (concat (map snd d)) + mset ws"
  by (induction d k ws rule: dict_extend.induct) auto

text \<open>The loop of \<open>block_names\<close>, from any dictionary of blocks.\<close>

lemma block_names_loop_distinct:
  "distinct (map fst blocks) \<Longrightarrow> distinct (map fst (block_names_loop blocks df))"
  by (induction df arbitrary: blocks) (simp_all add: dict_append_def dict_extend_distinct)

lemma block_names_loop_map_of:
  "map_of (block_names_loop blocks df) k =
     (if k \<in> first_letter ` set df
      then Some (dict_get blocks k @ filter (\<lambda>name. first_letter name = k) df)
      else map_of blocks k)"
proof (induction df arbitrary: blocks)
  case Nil
  then show ?case by simp
next
  case (Cons name rows)
  show ?case
    by (auto simp: Cons.IH dict_append_def dict_get_extend map_of_dict_extend
        empty_filter_conv filter_empty_conv image_iff)
qed

lemma block_names_loop_mset:
  "mset (concat (map snd (block_names_loop blocks df))) =
     mset (concat (map snd blocks)) + mset df"
  by (induction df arbitrary: blocks) (simp_all add: dict_append_def mset_dict_extend)

text \<open>The blocks, in terms of \<open>first_letter\<close>.\<close>

lemma block_names_blocks:
  "distinct (map fst (block_names df)) \<and>
   ((k, ns) \<in> set (block_names df) \<longleftrightarrow>
      k \<in> first_letter ` set df \<and> ns = filter (\<lambda>name. first_letter name = k) df) \<and>
   mset (concat (map snd (block_names df))) = mset df"
proof -
  have d: "distinct (map fst (block_names df))"
    by (simp add: block_names_def block_names_loop_distinct)
  have "(k, ns) \<in> set (block_names df) \<longleftrightarrow> map_of (block_names df) k = Some ns"
    using d by simp
  also have "\<dots> \<longleftrightarrow> k \<in> first_letter ` set df \<and> ns = filter (\<lambda>name. first_letter name = k) df"
    by (auto simp: block_names_def block_names_loop_map_of dict_get_def)
  finally have m: "(k, ns) \<in> set (block_names df) \<longleftrightarrow>
      k \<in> first_letter ` set df \<and> ns = filter (\<lambda>name. first_letter name = k) df" .
  have "mset (concat (map snd (block_names df))) = mset df"
    by (simp add: block_names_def block_names_loop_mset)
  with d m show ?thesis by blast
qed

text \<open>\<open>first_letter\<close> is the first character of a non-empty name and the empty string otherwise.\<close>

lemma first_letter_eq:
  "first_letter = (\<lambda>name. case name of [] \<Rightarrow> [] | c # cs \<Rightarrow> [c])"
  by (rule ext) (simp add: first_letter_def split: list.splits)

text \<open>
  C4. Blocking is exhaustive and disjoint. The keys of the blocks are distinct; \<open>(k, ns)\<close>
  is a block exactly when \<open>k\<close> is the key of some name of the input, the one-character
  string of its first character for a non-empty name and the empty string for the empty
  name, and \<open>ns\<close> is the list of all names of the input with that key, in their
  original order; so a name is in the block of its first character and in no other, and
  the blocks together hold the names of the input, each as often as the input does.
\<close>

theorem block_names_partition:
  "distinct (map fst (block_names df)) \<and>
   ((k, ns) \<in> set (block_names df) \<longleftrightarrow>
      k \<in> (\<lambda>name. case name of [] \<Rightarrow> [] | c # cs \<Rightarrow> [c]) ` set df \<and>
      ns = filter (\<lambda>name. (case name of [] \<Rightarrow> [] | c # cs \<Rightarrow> [c]) = k) df) \<and>
   mset (concat (map snd (block_names df))) = mset df"
  using block_names_blocks [of df k ns] unfolding first_letter_eq .

section \<open>Properties of the chunking\<close>

lemma slice_length: "length (slice xs i (i + n)) \<le> n"
  by (simp add: slice_def)

lemma concat_slices:
  "0 < n \<Longrightarrow>
   concat (map (\<lambda>i. slice xs i (i + n)) (range_from i (length xs) n)) = drop i xs"
proof (induction i "length xs" n rule: range_from.induct)
  case (1 i step)
  show ?case
  proof (cases "length xs \<le> i")
    case True
    then show ?thesis by (simp add: range_from.simps [of i])
  next
    case False
    with 1 have "concat (map (\<lambda>i. slice xs i (i + step)) (range_from (i + step) (length xs) step))
        = drop (i + step) xs"
      by simp
    with False 1(2) show ?thesis
      by (simp add: range_from.simps [of i] slice_def add.commute [of i]
          drop_drop [symmetric] del: drop_drop)
  qed
qed

lemma range_from_length:
  "0 < n \<Longrightarrow> length (range_from i stop n) = (stop - i + n - 1) div n"
proof (induction i stop n rule: range_from.induct)
  case (1 i stop step)
  show ?case
  proof (cases "stop \<le> i")
    case True
    with 1(2) show ?thesis by (simp add: range_from.simps [of i])
  next
    case False
    with 1 have ih: "length (range_from (i + step) stop step) = (stop - (i + step) + step - 1) div step"
      by simp
    show ?thesis
    proof (cases "stop - i < step")
      case True
      with False 1(2) have "(stop - i + step - 1) div step = 1"
        by (simp add: div_nat_eqI)
      with True False 1(2) ih show ?thesis
        by (simp add: range_from.simps [of i])
    next
      case b: False
      define a where "a = stop - (i + step) + step - 1"
      have "stop - i + step - 1 = a + step"
        using b False 1(2) by (simp add: a_def)
      moreover have "(a + step) div step = Suc (a div step)"
        using 1(2) by simp
      ultimately have "(stop - i + step - 1) div step = Suc (a div step)"
        by (simp only:)
      with False 1(2) ih show ?thesis
        by (simp add: range_from.simps [of i] a_def)
    qed
  qed
qed

lemma range_from_nth:
  "0 < n \<Longrightarrow> j < length (range_from i stop n) \<Longrightarrow> range_from i stop n ! j = i + j * n"
proof (induction i stop n arbitrary: j rule: range_from.induct)
  case (1 i stop step)
  show ?case
  proof (cases "stop \<le> i")
    case True
    with 1(3) show ?thesis by (simp add: range_from.simps [of i])
  next
    case False
    show ?thesis
    proof (cases j)
      case 0
      with False 1(2) show ?thesis by (simp add: range_from.simps [of i])
    next
      case (Suc j')
      with False 1(2,3) have "j' < length (range_from (i + step) stop step)"
        by (simp add: range_from.simps [of i])
      with 1(1) [of j'] False 1(2) have "range_from (i + step) stop step ! j' = i + step + j' * step"
        by simp
      with False 1(2) Suc show ?thesis by (simp add: range_from.simps [of i])
    qed
  qed
qed

lemma range_from_bounds:
  "0 < n \<Longrightarrow> x \<in> set (range_from i stop n) \<Longrightarrow> i \<le> x \<and> x < stop"
proof (induction i stop n rule: range_from.induct)
  case (1 i stop step)
  show ?case
  proof (cases "stop \<le> i")
    case True
    with 1(3) show ?thesis by (simp add: range_from.simps [of i])
  next
    case False
    with 1(2,3) have "x = i \<or> x \<in> set (range_from (i + step) stop step)"
      by (simp add: range_from.simps [of i])
    with 1(1,2) False show ?thesis by auto
  qed
qed

lemma ceiling_div_nat:
  assumes "0 < n"
  shows "\<lceil>real k / real n\<rceil> = int ((k + n - 1) div n)"
proof -
  define q where "q = (k + n - 1) div n"
  have "k + n - 1 < n + q * n"
    unfolding q_def using assms by (rule dividend_less_div_times)
  then have 1: "k \<le> q * n" by linarith
  have "q * n \<le> k + n - 1"
    unfolding q_def by (rule div_times_less_eq_dividend)
  with assms have 2: "q * n < k + n" by linarith
  from 1 have r1: "real k \<le> real q * real n"
    by (metis of_nat_le_iff of_nat_mult)
  from 2 have r2: "real q * real n < real k + real n"
    by (metis of_nat_less_iff of_nat_mult of_nat_add)
  have "\<lceil>real k / real n\<rceil> = int q"
  proof (rule ceiling_unique)
    show "of_int (int q) - 1 < real k / real n"
      using r2 assms by (simp add: field_simps)
    show "real k / real n \<le> of_int (int q)"
      using r1 assms by (simp add: field_simps)
  qed
  then show ?thesis by (simp add: q_def)
qed

text \<open>
  C5. For a positive \<open>chunk_size\<close>, chunking does not fail; the chunks concatenated in
  order are the block's list; every chunk is non-empty and has at most \<open>chunk_size\<close>
  names; there are \<open>\<lceil>k / chunk_size\<rceil>\<close> chunks for \<open>k\<close> names; and the chunk of index
  \<open>j\<close> is the slice from \<open>j * chunk_size\<close> to \<open>j * chunk_size + chunk_size\<close>, so the
  chunks take disjoint ranges of positions.
\<close>

theorem chunks_partition:
  assumes "0 < chunk_size"
  shows "\<exists>cs. chunks names chunk_size = Inr cs \<and>
           concat cs = names \<and>
           (\<forall>c \<in> set cs. c \<noteq> [] \<and> int (length c) \<le> chunk_size) \<and>
           int (length cs) = \<lceil>real (length names) / real_of_int chunk_size\<rceil> \<and>
           (\<forall>j < length cs. cs ! j = slice names (j * nat chunk_size) (j * nat chunk_size + nat chunk_size))"
proof -
  define n where "n = nat chunk_size"
  define cs where "cs = map (\<lambda>i. slice names i (i + n)) (range_from 0 (length names) n)"
  from assms have n: "0 < n" "chunk_size = int n" by (simp_all add: n_def)
  have c: "chunks names chunk_size = Inr cs"
    using assms by (simp add: chunks_def cs_def n_def)
  have cat: "concat cs = names"
    using concat_slices [OF n(1), of names 0] by (simp add: cs_def)
  have len: "length cs = (length names + n - 1) div n"
    using range_from_length [OF n(1), of 0 "length names"] by (simp add: cs_def)
  have nth: "cs ! j = slice names (j * n) (j * n + n)" if "j < length cs" for j
    using that range_from_nth [OF n(1), of j 0 "length names"] by (simp add: cs_def)
  have bound: "c \<noteq> [] \<and> int (length c) \<le> chunk_size" if "c \<in> set cs" for c
  proof -
    from that obtain i where i: "i \<in> set (range_from 0 (length names) n)" "c = slice names i (i + n)"
      by (auto simp: cs_def)
    from range_from_bounds [OF n(1) i(1)] have "i < length names" by simp
    with i(2) n show ?thesis
      by (simp add: slice_def)
  qed
  have cnt: "int (length cs) = \<lceil>real (length names) / real_of_int chunk_size\<rceil>"
    using ceiling_div_nat [OF n(1), of "length names"] by (simp add: len n(2))
  from c cat bound cnt nth show ?thesis
    by (simp add: n_def)
qed

theorem chunks_partition_witness:
  "(0::int) < 3 \<and>
   chunks [''ada'', ''adam'', ''al'', ''ali'', ''amy'', ''ann'', ''art''] 3 =
     Inr [[''ada'', ''adam'', ''al''], [''ali'', ''amy'', ''ann''], [''art'']] \<and>
   (\<exists>cs. chunks [''ada'', ''adam'', ''al'', ''ali'', ''amy'', ''ann'', ''art''] 3 = Inr cs \<and>
      concat cs = [''ada'', ''adam'', ''al'', ''ali'', ''amy'', ''ann'', ''art''] \<and>
      int (length cs) = \<lceil>real (length [''ada'', ''adam'', ''al'', ''ali'', ''amy'', ''ann'', ''art'']) / real_of_int 3\<rceil>)"
proof -
  have h: "(0::int) < 3" by simp
  have v: "chunks [''ada'', ''adam'', ''al'', ''ali'', ''amy'', ''ann'', ''art''] 3 =
     Inr [[''ada'', ''adam'', ''al''], [''ali'', ''amy'', ''ann''], [''art'']]"
    by code_simp
  from chunks_partition [OF h, of "[''ada'', ''adam'', ''al'', ''ali'', ''amy'', ''ann'', ''art'']"]
  have "\<exists>cs. chunks [''ada'', ''adam'', ''al'', ''ali'', ''amy'', ''ann'', ''art''] 3 = Inr cs \<and>
      concat cs = [''ada'', ''adam'', ''al'', ''ali'', ''amy'', ''ann'', ''art''] \<and>
      int (length cs) = \<lceil>real (length [''ada'', ''adam'', ''al'', ''ali'', ''amy'', ''ann'', ''art'']) / real_of_int 3\<rceil>"
    by blast
  with h v show ?thesis by blast
qed

section \<open>Properties of the chunk comparator\<close>

lemma canonical_pair_le: "fst (canonical_pair p) \<le> snd (canonical_pair p)"
  by (auto simp: canonical_pair_def)

lemma canonical_pair_idem: "canonical_pair (canonical_pair p) = canonical_pair p"
  by (auto simp: canonical_pair_def)

lemma canonical_pair_swap: "canonical_pair (y, x) = canonical_pair (x, y)"
  by (auto simp: canonical_pair_def)

lemma canonical_pair_fst_snd:
  "canonical_pair (fst (canonical_pair p), snd (canonical_pair p)) = canonical_pair p"
  "canonical_pair (snd (canonical_pair p), fst (canonical_pair p)) = canonical_pair p"
  by (cases p; auto simp: canonical_pair_def)+

lemma process_pair_cases [consumes 1, case_names seen skipped emitted]:
  assumes "process_pair P t (pd, seen) p = Inr (pd', seen')"
  obtains
    "canonical_pair p \<in> seen" "pd' = pd" "seen' = seen"
  | s where "canonical_pair p \<notin> seen"
      "get_similarity_score P (PyStr (fst (canonical_pair p))) (PyStr (snd (canonical_pair p))) = Inr s"
      "\<not> (t < s \<and> s < 1)" "pd' = pd" "seen' = insert (canonical_pair p) seen"
  | s where "canonical_pair p \<notin> seen"
      "get_similarity_score P (PyStr (fst (canonical_pair p))) (PyStr (snd (canonical_pair p))) = Inr s"
      "t < s" "s < 1"
      "pd' = dict_append (dict_append pd (fst (canonical_pair p))
                (match_record (snd (canonical_pair p)) s))
              (snd (canonical_pair p)) (match_record (fst (canonical_pair p)) s)"
      "seen' = insert (canonical_pair p) seen"
  using assms
  by (auto simp: process_pair_def Let_def split: if_splits sum.splits)

text \<open>What the lists gain when a pair is scored between the threshold and 1.\<close>

lemma process_pair_gains:
  assumes "process_pair P t (pd, seen) p = Inr (pd', seen')"
    and "canonical_pair p \<notin> seen"
    and "get_similarity_score P (PyStr (fst (canonical_pair p))) (PyStr (snd (canonical_pair p))) = Inr s"
    and "t < s" "s < 1"
  shows "dict_get pd' k =
     dict_get pd k @
     (if k = fst (canonical_pair p) then [match_record (snd (canonical_pair p)) s] else []) @
     (if k = snd (canonical_pair p) then [match_record (fst (canonical_pair p)) s] else [])"
  using assms
  by (cases rule: process_pair_cases) (simp_all add: dict_append_def dict_get_extend)

lemma nonempty_lists_extend:
  "nonempty_lists d \<Longrightarrow> ws \<noteq> [] \<Longrightarrow> nonempty_lists (dict_extend d k ws)"
  unfolding nonempty_lists_def
  by (induction d k ws rule: dict_extend.induct) (auto simp: dict_extend_keys)

lemma process_pair_nonempty:
  assumes "process_pair P t (pd, seen) p = Inr (pd', seen')" "nonempty_lists pd"
  shows "nonempty_lists pd'"
  using assms
  by (cases rule: process_pair_cases) (simp_all add: dict_append_def nonempty_lists_extend)

lemma process_pair_seen:
  assumes "process_pair P t (pd, seen) p = Inr (pd', seen')"
  shows "seen' = insert (canonical_pair p) seen"
  using assms
  by (cases rule: process_pair_cases) auto

lemma process_pair_inv:
  assumes "process_pair P t (pd, seen) p = Inr (pd', seen')" "chunk_inv P t (pd, seen)"
  shows "chunk_inv P t (pd', seen')"
proof -
  have old: "\<exists>n s. e = match_record n s \<and> t < s \<and> s < 1 \<and>
           canonical_pair (k, n) \<in> seen \<and>
           get_similarity_score P (PyStr (fst (canonical_pair (k, n))))
             (PyStr (snd (canonical_pair (k, n)))) = Inr s \<and>
           match_record k s \<in> set (dict_get pd n)"
    if "e \<in> set (dict_get pd k)" for k e
    using assms(2) that by (simp add: chunk_inv_def)
  have old2: "match_record y r \<in> set (dict_get pd x) \<and> match_record x r \<in> set (dict_get pd y)"
    if "(x, y) \<in> seen" "get_similarity_score P (PyStr x) (PyStr y) = Inr r" "t < r" "r < 1"
    for x y r
    using assms(2) that unfolding chunk_inv_def by auto
  define a where "a = fst (canonical_pair p)"
  define b where "b = snd (canonical_pair p)"
  have ab: "canonical_pair p = (a, b)" by (simp add: a_def b_def)
  have c1: "canonical_pair (a, b) = (a, b)"
    using canonical_pair_fst_snd(1) [of p] by (simp add: a_def b_def)
  have c2: "canonical_pair (b, a) = (a, b)"
    using canonical_pair_fst_snd(2) [of p] by (simp add: a_def b_def)
  from assms(1) show ?thesis
  proof (cases rule: process_pair_cases)
    case seen
    with assms(2) show ?thesis by simp
  next
    case (skipped s)
    have sc: "get_similarity_score P (PyStr a) (PyStr b) = Inr s"
      using skipped(2) by (simp add: a_def b_def)
    have s': "seen' = insert (a, b) seen"
      using skipped(5) ab by simp
    have p1: "\<exists>n r. e = match_record n r \<and> t < r \<and> r < 1 \<and>
           canonical_pair (k, n) \<in> seen' \<and>
           get_similarity_score P (PyStr (fst (canonical_pair (k, n))))
             (PyStr (snd (canonical_pair (k, n)))) = Inr r \<and>
           match_record k r \<in> set (dict_get pd' n)"
      if e: "e \<in> set (dict_get pd' k)" for k e
    proof -
      from e skipped(4) have "e \<in> set (dict_get pd k)" by simp
      from old [OF this] obtain n r where nr: "e = match_record n r" "t < r" "r < 1"
        "canonical_pair (k, n) \<in> seen"
        "get_similarity_score P (PyStr (fst (canonical_pair (k, n))))
             (PyStr (snd (canonical_pair (k, n)))) = Inr r"
        "match_record k r \<in> set (dict_get pd n)"
        by blast
      show ?thesis
        apply (rule exI [of _ n], rule exI [of _ r])
        using nr s' skipped(4) by simp
    qed
    have p2: "match_record y r \<in> set (dict_get pd' x) \<and> match_record x r \<in> set (dict_get pd' y)"
      if h: "(x, y) \<in> seen'" "get_similarity_score P (PyStr x) (PyStr y) = Inr r" "t < r" "r < 1"
      for x y r
    proof (cases "(x, y) = (a, b)")
      case True
      with h(2) sc have "r = s" by simp
      with h(3,4) skipped(3) show ?thesis by simp
    next
      case False
      with h(1) s' have "(x, y) \<in> seen" by auto
      from old2 [OF this h(2,3,4)] skipped(4) show ?thesis by simp
    qed
    show ?thesis
      unfolding chunk_inv_def using p1 p2 by simp
  next
    case (emitted s)
    have g: "dict_get pd' k = dict_get pd k @ (if k = a then [match_record b s] else []) @
               (if k = b then [match_record a s] else [])" for k
      by (simp add: emitted(5) dict_append_def dict_get_extend a_def b_def)
    have sc: "get_similarity_score P (PyStr a) (PyStr b) = Inr s"
      using emitted(2) by (simp add: a_def b_def)
    have s': "seen' = insert (a, b) seen"
      using emitted(6) ab by simp
    have p1: "\<exists>n r. e = match_record n r \<and> t < r \<and> r < 1 \<and>
             canonical_pair (k, n) \<in> seen' \<and>
             get_similarity_score P (PyStr (fst (canonical_pair (k, n))))
               (PyStr (snd (canonical_pair (k, n)))) = Inr r \<and>
             match_record k r \<in> set (dict_get pd' n)"
      if e: "e \<in> set (dict_get pd' k)" for k e
    proof -
      from e g [of k] consider "e \<in> set (dict_get pd k)"
        | "k = a" "e = match_record b s" | "k = b" "e = match_record a s"
        by (auto split: if_splits)
      then show ?thesis
      proof cases
        case 1
        from old [OF 1] obtain n r where nr: "e = match_record n r" "t < r" "r < 1"
          "canonical_pair (k, n) \<in> seen"
          "get_similarity_score P (PyStr (fst (canonical_pair (k, n))))
               (PyStr (snd (canonical_pair (k, n)))) = Inr r"
          "match_record k r \<in> set (dict_get pd n)"
          by blast
        show ?thesis
          apply (rule exI [of _ n], rule exI [of _ r])
          using nr s' g [of n] by simp
      next
        case 2
        show ?thesis
          apply (rule exI [of _ b], rule exI [of _ s])
          using 2 emitted(3,4) sc s' c1 g [of b] by simp
      next
        case 3
        show ?thesis
          apply (rule exI [of _ a], rule exI [of _ s])
          using 3 emitted(3,4) sc s' c2 g [of a] by simp
      qed
    qed
    have p2: "match_record y r \<in> set (dict_get pd' x) \<and> match_record x r \<in> set (dict_get pd' y)"
      if h: "(x, y) \<in> seen'" "get_similarity_score P (PyStr x) (PyStr y) = Inr r" "t < r" "r < 1"
      for x y r
    proof (cases "(x, y) = (a, b)")
      case True
      with h(2) sc have "r = s" by simp
      with True show ?thesis using g [of a] g [of b] by simp
    next
      case False
      with h(1) s' have "(x, y) \<in> seen" by auto
      from old2 [OF this h(2,3,4)] show ?thesis using g [of x] g [of y] by simp
    qed
    show ?thesis
      unfolding chunk_inv_def using p1 p2 by simp
  qed
qed

lemma process_pairs_inv:
  "process_pairs P t st ps = Inr st' \<Longrightarrow> chunk_inv P t st \<Longrightarrow> chunk_inv P t st'"
proof (induction ps arbitrary: st)
  case Nil
  then show ?case by simp
next
  case (Cons p ps)
  from Cons.prems(1) obtain st1 where 1: "process_pair P t st p = Inr st1"
    and 2: "process_pairs P t st1 ps = Inr st'"
    by (auto split: sum.splits)
  from 1 Cons.prems(2) have "chunk_inv P t st1"
    using process_pair_inv [of P t "fst st" "snd st" p "fst st1" "snd st1"] by simp
  with 2 show ?case by (rule Cons.IH)
qed

lemma process_pairs_nonempty:
  "process_pairs P t st ps = Inr st' \<Longrightarrow> nonempty_lists (fst st) \<Longrightarrow> nonempty_lists (fst st')"
proof (induction ps arbitrary: st)
  case Nil
  then show ?case by simp
next
  case (Cons p ps)
  from Cons.prems(1) obtain st1 where 1: "process_pair P t st p = Inr st1"
    and 2: "process_pairs P t st1 ps = Inr st'"
    by (auto split: sum.splits)
  from 1 Cons.prems(2) have "nonempty_lists (fst st1)"
    using process_pair_nonempty [of P t "fst st" "snd st" p "fst st1" "snd st1"] by simp
  with 2 show ?case by (rule Cons.IH)
qed

lemma process_pairs_seen:
  "process_pairs P t st ps = Inr st' \<Longrightarrow> snd st' = snd st \<union> canonical_pair ` set ps"
proof (induction ps arbitrary: st)
  case Nil
  then show ?case by simp
next
  case (Cons p ps)
  from Cons.prems(1) obtain st1 where 1: "process_pair P t st p = Inr st1"
    and 2: "process_pairs P t st1 ps = Inr st'"
    by (auto split: sum.splits)
  from 1 have "snd st1 = insert (canonical_pair p) (snd st)"
    using process_pair_seen [of P t "fst st" "snd st" p "fst st1" "snd st1"] by simp
  with Cons.IH [OF 2] show ?case by simp
qed

lemma combinations2_iff:
  "(x, y) \<in> set (combinations2 xs) \<longleftrightarrow> (\<exists>i j. i < j \<and> j < length xs \<and> xs ! i = x \<and> xs ! j = y)"
proof (induction xs)
  case Nil
  then show ?case by simp
next
  case (Cons a xs)
  have "(\<exists>i j. i < j \<and> j < length (a # xs) \<and> (a # xs) ! i = x \<and> (a # xs) ! j = y) \<longleftrightarrow>
        (a = x \<and> y \<in> set xs) \<or> (\<exists>i j. i < j \<and> j < length xs \<and> xs ! i = x \<and> xs ! j = y)"
    (is "?L \<longleftrightarrow> ?A \<or> ?B")
  proof
    assume ?L
    then obtain i j where ij: "i < j" "j < length (a # xs)" "(a # xs) ! i = x" "(a # xs) ! j = y"
      by blast
    then obtain j' where j': "j = Suc j'" by (cases j) auto
    show "?A \<or> ?B"
    proof (cases i)
      case 0
      with ij j' show ?thesis by auto
    next
      case (Suc i')
      with ij j' have "i' < j' \<and> j' < length xs \<and> xs ! i' = x \<and> xs ! j' = y" by simp
      then show ?thesis by blast
    qed
  next
    assume "?A \<or> ?B"
    then show ?L
    proof
      assume ?A
      then obtain j where "j < length xs" "xs ! j = y" by (auto simp: in_set_conv_nth)
      with \<open>?A\<close> have "0 < Suc j \<and> Suc j < length (a # xs) \<and> (a # xs) ! 0 = x \<and> (a # xs) ! Suc j = y"
        by simp
      then show ?L by blast
    next
      assume ?B
      then obtain i j where "i < j" "j < length xs" "xs ! i = x" "xs ! j = y" by blast
      then have "Suc i < Suc j \<and> Suc j < length (a # xs) \<and> (a # xs) ! Suc i = x \<and> (a # xs) ! Suc j = y"
        by simp
      then show ?L by blast
    qed
  qed
  with Cons.IH show ?case by auto
qed

text \<open>The comparator's result on a chunk, from the empty state.\<close>

lemma dict_get_member: "distinct (map fst d) \<Longrightarrow> (k, vs) \<in> set d \<Longrightarrow> dict_get d k = vs"
  by (simp add: dict_get_def)

lemma process_chunk_state_inv:
  assumes "process_chunk_state P chunk t = Inr (pd, seen)"
  shows "chunk_inv P t (pd, seen)"
proof -
  have "chunk_inv P t ([], {})"
    by (simp add: chunk_inv_def dict_get_def)
  with assms show ?thesis
    unfolding process_chunk_state_def by (rule process_pairs_inv)
qed

lemma process_chunk_state_nonempty:
  assumes "process_chunk_state P chunk t = Inr (pd, seen)"
  shows "nonempty_lists pd"
proof -
  have "nonempty_lists (fst (([], {}) :: chunk_state))"
    by (simp add: nonempty_lists_def)
  with assms have "nonempty_lists (fst (pd, seen))"
    unfolding process_chunk_state_def by (rule process_pairs_nonempty)
  then show ?thesis by simp
qed

lemma process_chunk_state_seen:
  assumes "process_chunk_state P chunk t = Inr (pd, seen)"
  shows "seen = canonical_pair ` set (combinations2 chunk)"
  using process_pairs_seen [OF assms [unfolded process_chunk_state_def]] by simp







text \<open>The scored pairs are the canonical pairs of two positions of the chunk.\<close>

lemma seen_iff_positions:
  assumes "process_chunk_state P chunk t = Inr (pd, seen)"
  shows "(a, b) \<in> seen \<longleftrightarrow>
     (\<exists>i j. i < j \<and> j < length chunk \<and> (a, b) = canonical_pair (chunk ! i, chunk ! j))"
proof -
  have "(a, b) \<in> seen \<longleftrightarrow> (\<exists>x y. (x, y) \<in> set (combinations2 chunk) \<and> (a, b) = canonical_pair (x, y))"
    unfolding process_chunk_state_seen [OF assms] by auto
  also have "\<dots> \<longleftrightarrow> (\<exists>i j. i < j \<and> j < length chunk \<and> (a, b) = canonical_pair (chunk ! i, chunk ! j))"
    unfolding combinations2_iff by blast
  finally show ?thesis .
qed

lemma canonical_pair_same: "canonical_pair (x, x) = (x, x)"
  by (simp add: canonical_pair_def)

lemma canonical_pair_eq_same: "canonical_pair (x, y) = (a, a) \<Longrightarrow> x = y"
  by (auto simp: canonical_pair_def split: if_splits)

lemma self_pair_iff:
  assumes "process_chunk_state P chunk t = Inr (pd, seen)"
  shows "(\<exists>a. (a, a) \<in> seen) \<longleftrightarrow> \<not> distinct chunk"
proof
  assume "\<exists>a. (a, a) \<in> seen"
  then obtain a where "(a, a) \<in> seen" by blast
  then obtain i j where ij: "i < j" "j < length chunk" "(a, a) = canonical_pair (chunk ! i, chunk ! j)"
    unfolding seen_iff_positions [OF assms] by blast
  from ij(3) have "chunk ! i = chunk ! j"
    by (metis canonical_pair_eq_same)
  with ij(1,2) have "i < length chunk \<and> j < length chunk \<and> i \<noteq> j \<and> chunk ! i = chunk ! j"
    by simp
  then show "\<not> distinct chunk"
    unfolding distinct_conv_nth by blast
next
  assume "\<not> distinct chunk"
  then obtain i j where ij: "i < length chunk" "j < length chunk" "i \<noteq> j" "chunk ! i = chunk ! j"
    by (auto simp: distinct_conv_nth)
  define i' where "i' = min i j"
  define j' where "j' = max i j"
  from ij have "i' < j'" "j' < length chunk" "chunk ! i' = chunk ! j'"
    by (auto simp: i'_def j'_def min_def max_def)
  then have "i' < j' \<and> j' < length chunk \<and>
      (chunk ! i', chunk ! i') = canonical_pair (chunk ! i', chunk ! j')"
    by (simp add: canonical_pair_same)
  then have "(chunk ! i', chunk ! i') \<in> seen"
    unfolding seen_iff_positions [OF assms] by blast
  then show "\<exists>a. (a, a) \<in> seen" by blast
qed

lemma repeated_chunk:
  "process_chunk_state sample_provider [''ann'', ''ann'', ''anne''] (8 / 10) =
     Inr ([(''ann'', [''anne (0.85)'']), (''anne'', [''ann (0.85)''])],
          {(''ann'', ''ann''), (''ann'', ''anne'')})"
  by code_simp

text \<open>
  C3, as the code has it. When the comparator returns, every string in the list of a name
  \<open>k\<close> is the record of a name \<open>n\<close> whose score with \<open>k\<close> is above the threshold and
  below 1; and the scored pairs are exactly the canonical forms of the names at two
  positions \<open>i < j\<close> of the chunk, so no position is paired with itself. A pair of two
  equal names is scored exactly when the chunk holds a name at two positions; in a chunk
  without repeated names the first name of every scored pair is below the second.
\<close>

theorem process_chunk_records_and_pairs:
  assumes "process_chunk_state P chunk threshold = Inr (pd, seen)"
  shows "(\<forall>k vs v. (k, vs) \<in> set pd \<and> v \<in> set vs \<longrightarrow>
            (\<exists>n s. v = match_record n s \<and> threshold < s \<and> s < 1 \<and>
               get_similarity_score P (PyStr (fst (canonical_pair (k, n))))
                 (PyStr (snd (canonical_pair (k, n)))) = Inr s)) \<and>
         (\<forall>a b. (a, b) \<in> seen \<longleftrightarrow>
            (\<exists>i j. i < j \<and> j < length chunk \<and> (a, b) = canonical_pair (chunk ! i, chunk ! j))) \<and>
         ((\<exists>a. (a, a) \<in> seen) \<longleftrightarrow> \<not> distinct chunk) \<and>
         (distinct chunk \<longrightarrow> (\<forall>a b. (a, b) \<in> seen \<longrightarrow> a < b))"
proof -
  note inv = process_chunk_state_inv [OF assms]
  note ne = process_chunk_state_nonempty [OF assms]
  have r: "\<exists>n s. v = match_record n s \<and> threshold < s \<and> s < 1 \<and>
               get_similarity_score P (PyStr (fst (canonical_pair (k, n))))
                 (PyStr (snd (canonical_pair (k, n)))) = Inr s"
    if "(k, vs) \<in> set pd" "v \<in> set vs" for k vs v
  proof -
    from ne that(1) have "dict_get pd k = vs"
      by (simp add: nonempty_lists_def dict_get_member)
    with that(2) have "v \<in> set (dict_get pd k)" by simp
    with inv show ?thesis
      unfolding chunk_inv_def by (simp only: fst_conv) blast
  qed
  note p = seen_iff_positions [OF assms]
  note s = self_pair_iff [OF assms]
  have d: "a < b" if "distinct chunk" "(a, b) \<in> seen" for a b
  proof -
    from that(2) obtain i j where ij: "i < j" "j < length chunk"
      "(a, b) = canonical_pair (chunk ! i, chunk ! j)"
      unfolding p by blast
    with that(1) have "chunk ! i \<noteq> chunk ! j"
      by (simp add: nth_eq_iff_index_eq)
    with ij(3) show ?thesis
      by (auto simp: canonical_pair_def split: if_splits)
  qed
  from r p s d show ?thesis by blast
qed

theorem process_chunk_records_and_pairs_witness:
  "process_chunk_state sample_provider [''ann'', ''ann'', ''anne''] (8 / 10) =
     Inr ([(''ann'', [''anne (0.85)'']), (''anne'', [''ann (0.85)''])],
          {(''ann'', ''ann''), (''ann'', ''anne'')}) \<and>
   (\<exists>n s. ''anne (0.85)'' = match_record n s \<and> 8 / 10 < s \<and> s < 1 \<and>
      get_similarity_score sample_provider (PyStr (fst (canonical_pair (''ann'', n))))
        (PyStr (snd (canonical_pair (''ann'', n)))) = Inr s) \<and>
   (\<exists>i j. i < j \<and> j < length [''ann'', ''ann'', ''anne''] \<and>
      (''ann'', ''ann'') =
        canonical_pair ([''ann'', ''ann'', ''anne''] ! i, [''ann'', ''ann'', ''anne''] ! j)) \<and>
   \<not> distinct [''ann'', ''ann'', ''anne'']"
proof -
  note t = process_chunk_records_and_pairs [OF repeated_chunk]
  have k: "(''ann'', [''anne (0.85)'']) \<in>
        set [(''ann'', [''anne (0.85)'']), (''anne'', [''ann (0.85)''])] \<and>
      ''anne (0.85)'' \<in> set [''anne (0.85)'']"
    by simp
  have m: "(''ann'', ''ann'') \<in> {(''ann'', ''ann''), (''ann'', ''anne'')}"
    by simp
  have e: "\<exists>a. (a, a) \<in> {(''ann'', ''ann''), (''ann'', ''anne'')}"
    by (rule exI [of _ "''ann''"]) (rule m)
  have r: "\<exists>n s. ''anne (0.85)'' = match_record n s \<and> 8 / 10 < s \<and> s < 1 \<and>
      get_similarity_score sample_provider (PyStr (fst (canonical_pair (''ann'', n))))
        (PyStr (snd (canonical_pair (''ann'', n)))) = Inr s"
    by (rule t [THEN conjunct1, rule_format, OF k])
  have p: "\<exists>i j. i < j \<and> j < length [''ann'', ''ann'', ''anne''] \<and>
      (''ann'', ''ann'') =
        canonical_pair ([''ann'', ''ann'', ''anne''] ! i, [''ann'', ''ann'', ''anne''] ! j)"
    by (rule t [THEN conjunct2, THEN conjunct1, rule_format, THEN iffD1, OF m])
  have d: "\<not> distinct [''ann'', ''ann'', ''anne'']"
    by (rule t [THEN conjunct2, THEN conjunct2, THEN conjunct1, THEN iffD1, OF e])
  show ?thesis
    by (intro conjI repeated_chunk r p d)
qed

text \<open>
  The claim as the specification states it fails on a chunk that holds a name twice: the
  comparator scores the name against itself.
\<close>

theorem self_pair_scored_counterexample:
  "(''ann'', ''ann'') \<in> scored_pairs sample_provider [''ann'', ''ann''] (8 / 10)"
  by code_simp



section \<open>Properties of the cluster consolidator\<close>

lemma set_unique_cluster: "set (unique_cluster key similars) = insert key (set similars)"
  by (auto simp: unique_cluster_def)

lemma consolidate_loop_clusters:
  "fst (consolidate_loop (clusters, visited) items) =
     clusters @ fst (consolidate_loop ([], visited) items)"
proof (induction items arbitrary: clusters visited)
  case Nil
  then show ?case by simp
next
  case (Cons item items)
  obtain key similars where item: "item = (key, similars)" by (cases item)
  show ?case
  proof (cases "key \<in> visited")
    case True
    with item Cons.IH [of clusters visited] show ?thesis by simp
  next
    case False
    with item
      Cons.IH [of "clusters @ [unique_cluster key similars]"
        "visited \<union> base_name ` set (unique_cluster key similars)"]
      Cons.IH [of "[unique_cluster key similars]"
        "visited \<union> base_name ` set (unique_cluster key similars)"]
    show ?thesis by simp
  qed
qed

lemma consolidate_loop_seeds:
  "j < length (fst (consolidate_loop ([], visited) items)) \<Longrightarrow>
   \<exists>k sims. (k, sims) \<in> set items \<and>
     fst (consolidate_loop ([], visited) items) ! j = unique_cluster k sims \<and>
     k \<notin> visited \<and>
     (\<forall>i<j. k \<notin> base_name ` set (fst (consolidate_loop ([], visited) items) ! i))"
proof (induction items arbitrary: visited j)
  case Nil
  then show ?case by simp
next
  case (Cons item items)
  obtain key similars where item: "item = (key, similars)" by (cases item)
  show ?case
  proof (cases "key \<in> visited")
    case True
    with item have eq: "fst (consolidate_loop ([], visited) (item # items)) =
        fst (consolidate_loop ([], visited) items)"
      by simp
    from Cons.IH [of j visited] Cons.prems eq show ?thesis
      by (simp only: eq) (metis list.set_intros(2))
  next
    case False
    define uc where "uc = unique_cluster key similars"
    define v' where "v' = visited \<union> base_name ` set uc"
    define rest where "rest = fst (consolidate_loop ([], v') items)"
    from False item have eq: "fst (consolidate_loop ([], visited) (item # items)) = uc # rest"
      using consolidate_loop_clusters [of "[uc]" v' items]
      by (simp add: uc_def v'_def rest_def)
    show ?thesis
    proof (cases j)
      case 0
      have "(key, similars) \<in> set (item # items) \<and> (uc # rest) ! 0 = unique_cluster key similars \<and>
          key \<notin> visited \<and> (\<forall>i<(0::nat). key \<notin> base_name ` set ((uc # rest) ! i))"
        using False item by (simp add: uc_def)
      with 0 eq show ?thesis by (simp only: eq) blast
    next
      case (Suc j')
      with Cons.prems eq have "j' < length rest" by simp
      from Cons.IH [of j' v'] this obtain k sims where ks: "(k, sims) \<in> set items"
        "rest ! j' = unique_cluster k sims" "k \<notin> v'"
        "\<forall>i<j'. k \<notin> base_name ` set (rest ! i)"
        unfolding rest_def by blast
      have "k \<notin> base_name ` set ((uc # rest) ! i)" if "i < Suc j'" for i
      proof (cases i)
        case 0
        with ks(3) show ?thesis by (simp add: v'_def)
      next
        case (Suc i')
        with that ks(4) show ?thesis by simp
      qed
      with ks have "(k, sims) \<in> set (item # items) \<and> (uc # rest) ! Suc j' = unique_cluster k sims \<and>
          k \<notin> visited \<and> (\<forall>i<Suc j'. k \<notin> base_name ` set ((uc # rest) ! i))"
        by (simp add: v'_def)
      with Suc eq show ?thesis by (simp only: eq) blast
    qed
  qed
qed

text \<open>The base name of a plain name and of its record is the name.\<close>

lemma split_head_plain: "\<not> sublist '' ('' name \<Longrightarrow> split_head name = name"
  by (induction name rule: split_head.induct) (auto simp: sublist_Cons_right)

lemma split_head_record:
  "\<not> sublist '' ('' name \<Longrightarrow> split_head (name @ CHR '' '' # CHR ''('' # rest) = name"
  by (induction name rule: split_head.induct) (auto simp: sublist_Cons_right)

lemma base_name_plain: "plain_name name \<Longrightarrow> base_name name = name"
  by (simp add: plain_name_def base_name_def split_head_plain)

lemma base_name_record: "plain_name name \<Longrightarrow> base_name (match_record name s) = name"
  by (simp add: plain_name_def base_name_def match_record_def split_head_record)

lemma sample_match_map_plain: "\<forall>k \<in> fst ` set sample_match_map. plain_name k"
  by code_simp

text \<open>
  C1, as the code has it, for a Match Map whose keys are plain names. The clusters are
  listed in the order the loop emits them. Every cluster is the sorted, deduplicated list
  of one key of the Match Map, its seed, and the candidates of that key; it contains the
  seed; and the seed is not a member of any cluster emitted before, neither as a bare name
  nor as a record of that name with any score: a name that a cluster holds never seeds a
  later cluster.
\<close>

theorem consolidate_member_never_seeds:
  assumes "\<forall>k \<in> fst ` set mm. plain_name k"
  shows "\<forall>j<length (consolidate mm).
     \<exists>k sims. (k, sims) \<in> set mm \<and> consolidate mm ! j = unique_cluster k sims \<and>
       k \<in> set (consolidate mm ! j) \<and>
       (\<forall>i<j. k \<notin> set (consolidate mm ! i) \<and>
          (\<forall>s. match_record k s \<notin> set (consolidate mm ! i)))"
proof (intro allI impI)
  fix j
  assume "j < length (consolidate mm)"
  then have "j < length (fst (consolidate_loop ([], {}) mm))"
    by (simp add: consolidate_def)
  from consolidate_loop_seeds [OF this] obtain k sims where ks:
    "(k, sims) \<in> set mm" "consolidate mm ! j = unique_cluster k sims"
    "\<forall>i<j. k \<notin> base_name ` set (consolidate mm ! i)"
    unfolding consolidate_def by blast
  from ks(1) assms have p: "plain_name k" by force
  have "k \<notin> set (consolidate mm ! i) \<and> (\<forall>s. match_record k s \<notin> set (consolidate mm ! i))"
    if "i < j" for i
  proof -
    from ks(3) that have n: "k \<notin> base_name ` set (consolidate mm ! i)" by simp
    have "k \<notin> set (consolidate mm ! i)"
    proof
      assume "k \<in> set (consolidate mm ! i)"
      then have "base_name k \<in> base_name ` set (consolidate mm ! i)" by (rule imageI)
      with n p show False by (simp add: base_name_plain)
    qed
    moreover have "match_record k s \<notin> set (consolidate mm ! i)" for s
    proof
      assume "match_record k s \<in> set (consolidate mm ! i)"
      then have "base_name (match_record k s) \<in> base_name ` set (consolidate mm ! i)"
        by (rule imageI)
      with n p show False by (simp add: base_name_record)
    qed
    ultimately show ?thesis by blast
  qed
  with ks(1,2) show "\<exists>k sims. (k, sims) \<in> set mm \<and> consolidate mm ! j = unique_cluster k sims \<and>
       k \<in> set (consolidate mm ! j) \<and>
       (\<forall>i<j. k \<notin> set (consolidate mm ! i) \<and>
          (\<forall>s. match_record k s \<notin> set (consolidate mm ! i)))"
    by (auto simp: set_unique_cluster)
qed

theorem consolidate_member_never_seeds_witness:
  "(1::nat) < length (consolidate sample_match_map) \<and>
   (\<exists>k sims. (k, sims) \<in> set sample_match_map \<and>
      consolidate sample_match_map ! 1 = unique_cluster k sims \<and>
      k \<notin> set (consolidate sample_match_map ! 0) \<and>
      (\<forall>s. match_record k s \<notin> set (consolidate sample_match_map ! 0)))"
proof -
  have l: "(1::nat) < length (consolidate sample_match_map)" by code_simp
  from consolidate_member_never_seeds [OF sample_match_map_plain] l obtain k sims where
    "(k, sims) \<in> set sample_match_map"
    "consolidate sample_match_map ! 1 = unique_cluster k sims"
    "\<forall>i<1. k \<notin> set (consolidate sample_match_map ! i) \<and>
       (\<forall>s. match_record k s \<notin> set (consolidate sample_match_map ! i))"
    by blast
  then have "(k, sims) \<in> set sample_match_map \<and>
    consolidate sample_match_map ! 1 = unique_cluster k sims \<and>
    k \<notin> set (consolidate sample_match_map ! 0) \<and>
    (\<forall>s. match_record k s \<notin> set (consolidate sample_match_map ! 0))"
    by simp
  with l show ?thesis by blast
qed

text \<open>
  The claim as the specification states it fails on the Match Map of three names of which
  the second matches the first and the third, and the first and the third do not match:
  the second name is a member of both clusters.
\<close>

theorem names_in_one_cluster_counterexample:
  "consolidate sample_match_map =
     [[''abcde'', ''abcdf (0.88)''], [''abcdf (0.82)'', ''abcgf'']] \<and>
   \<not> names_in_one_cluster (consolidate sample_match_map)"
  by code_simp

text \<open>The comparator and the merges build this Match Map from the three names.\<close>

lemma sample_match_map_reached:
  "all_potential_duplicates sample_provider
     (block_names (map preprocess_name [PyStr ''abcde'', PyStr ''abcdf'', PyStr ''abcgf''])) =
   Inr sample_match_map"
  by code_simp

section \<open>Properties of the whole run\<close>

lemma all_records_extend:
  "all_records P t d \<Longrightarrow> ws \<noteq> [] \<Longrightarrow> \<forall>v \<in> set ws. is_record P t k v \<Longrightarrow>
   all_records P t (dict_extend d k ws)"
  unfolding all_records_def
  by (induction d k ws rule: dict_extend.induct) auto

lemma merge_result_records:
  "all_records P t d \<Longrightarrow> all_records P t result \<Longrightarrow> all_records P t (merge_result d result)"
proof (induction result arbitrary: d)
  case Nil
  then show ?case by simp
next
  case (Cons item result)
  obtain key val where item: "item = (key, val)" by (cases item)
  from Cons.prems(2) item have v: "val \<noteq> []" "\<forall>v \<in> set val. is_record P t key v"
    and r: "all_records P t result"
    by (simp_all add: all_records_def)
  from Cons.prems(1) v have "all_records P t (dict_extend d key val)"
    by (rule all_records_extend)
  from Cons.IH [OF this r] item show ?case by simp
qed

lemma merge_result_distinct:
  "distinct (map fst d) \<Longrightarrow> distinct (map fst (merge_result d result))"
proof (induction result arbitrary: d)
  case Nil
  then show ?case by simp
next
  case (Cons item result)
  obtain key val where item: "item = (key, val)" by (cases item)
  from Cons.prems have "distinct (map fst (dict_extend d key val))"
    by (rule dict_extend_distinct)
  from Cons.IH [OF this] item show ?case by simp
qed

lemma merge_futures_records:
  "merge_futures d fs = Inr m \<Longrightarrow> all_records P t d \<Longrightarrow> distinct (map fst d) \<Longrightarrow>
   (\<And>r. Inr r \<in> set fs \<Longrightarrow> all_records P t r) \<Longrightarrow>
   all_records P t m \<and> distinct (map fst m)"
proof (induction fs arbitrary: d)
  case Nil
  then show ?case by simp
next
  case (Cons f fs)
  from Cons.prems(1) obtain r where f: "f = Inr r"
    and m: "merge_futures (merge_result d r) fs = Inr m"
    by (cases f) simp_all
  from f Cons.prems(4) have "all_records P t r" by simp
  with Cons.prems(2) have 1: "all_records P t (merge_result d r)"
    by (rule merge_result_records)
  from Cons.prems(3) have 2: "distinct (map fst (merge_result d r))"
    by (rule merge_result_distinct)
  from Cons.prems(4) have 3: "\<And>r. Inr r \<in> set fs \<Longrightarrow> all_records P t r" by simp
  from Cons.IH [OF m 1 2 3] show ?case .
qed

lemma process_chunk_records:
  assumes "process_chunk P chunk t = Inr pd"
  shows "all_records P t pd"
proof -
  from assms obtain seen where st: "process_chunk_state P chunk t = Inr (pd, seen)"
    by (auto simp: process_chunk_def split: sum.splits)
  note inv = process_chunk_state_inv [OF st]
  note ne = process_chunk_state_nonempty [OF st]
  have "vs \<noteq> [] \<and> (\<forall>v \<in> set vs. is_record P t k v)" if kv: "(k, vs) \<in> set pd" for k vs
  proof -
    from ne kv have g: "dict_get pd k = vs"
      by (simp add: nonempty_lists_def dict_get_member)
    from ne kv have n: "vs \<noteq> []"
      by (auto simp: nonempty_lists_def)
    have "is_record P t k v" if "v \<in> set vs" for v
    proof -
      from that g have "v \<in> set (dict_get pd k)" by simp
      with inv show ?thesis
        unfolding chunk_inv_def is_record_def by (simp only: fst_conv) blast
    qed
    with n show ?thesis by blast
  qed
  then show ?thesis
    unfolding all_records_def by blast
qed

lemma process_block_records:
  assumes "process_block_with_threads P names t chunk_size = Inr m"
  shows "all_records P t m \<and> distinct (map fst m)"
proof -
  from assms obtain cs where
    m: "merge_futures [] (map (\<lambda>chunk. process_chunk P chunk t) cs) = Inr m"
    by (auto simp: process_block_with_threads_def split: sum.splits)
  have 1: "all_records P t []" by (simp add: all_records_def)
  have 2: "distinct (map fst ([] :: match_map))" by simp
  have 3: "all_records P t r" if "Inr r \<in> set (map (\<lambda>chunk. process_chunk P chunk t) cs)" for r
  proof -
    from that obtain chunk where "process_chunk P chunk t = Inr r" by auto
    then show ?thesis by (rule process_chunk_records)
  qed
  from merge_futures_records [OF m 1 2 3] show ?thesis .
qed

lemma all_potential_duplicates_records:
  assumes "all_potential_duplicates P blocked = Inr mm"
  shows "all_records P (8 / 10) mm \<and> distinct (map fst mm)"
proof -
  define fs where "fs = map (\<lambda>names. process_block_with_threads P names (8 / 10) 1000)
          (map snd blocked)"
  from assms have m: "merge_futures [] fs = Inr mm"
    by (simp add: all_potential_duplicates_def fs_def)
  have 1: "all_records P (8 / 10) []" by (simp add: all_records_def)
  have 2: "distinct (map fst ([] :: match_map))" by simp
  have 3: "all_records P (8 / 10) r" if "Inr r \<in> set fs" for r
  proof -
    from that obtain names where "process_block_with_threads P names (8 / 10) 1000 = Inr r"
      unfolding fs_def by auto
    from process_block_records [OF this] show ?thesis by simp
  qed
  from merge_futures_records [OF m 1 2 3] show ?thesis .
qed

lemma consolidate_members:
  assumes "c \<in> set (consolidate mm)"
  shows "\<exists>k sims. (k, sims) \<in> set mm \<and> c = unique_cluster k sims"
proof -
  from assms obtain j where j: "j < length (fst (consolidate_loop ([], {}) mm))"
    "c = fst (consolidate_loop ([], {}) mm) ! j"
    by (auto simp: consolidate_def in_set_conv_nth)
  from consolidate_loop_seeds [OF j(1)] j(2) show ?thesis by blast
qed

lemma sample_all:
  "all_potential_duplicates sample_provider
     (block_names (map preprocess_name
        [PyStr ''abcde'', PyStr ''abcdf'', PyStr ''abcgf'', PyStr ''zed''])) =
   Inr sample_match_map"
  by code_simp

text \<open>
  C9. When the run builds a Match Map: its keys are distinct; every key has a non-empty
  list, and every string of the list is the record of a name whose score with the key is
  above 0.8 and below 1, so a name without such a match is not a key; and every member of
  an output cluster is a key of the Match Map or a string of one of its lists, so a name
  that is neither appears in no cluster.
\<close>

theorem unmatched_names_dropped:
  assumes "all_potential_duplicates P blocked = Inr mm"
  shows "distinct (map fst mm) \<and>
    (\<forall>k vs. (k, vs) \<in> set mm \<longrightarrow> vs \<noteq> [] \<and>
       (\<forall>v \<in> set vs. \<exists>n s. v = match_record n s \<and> 8 / 10 < s \<and> s < 1 \<and>
          get_similarity_score P (PyStr (fst (canonical_pair (k, n))))
            (PyStr (snd (canonical_pair (k, n)))) = Inr s)) \<and>
    (\<forall>c m. c \<in> set (sort_clusters (consolidate mm)) \<and> m \<in> set c \<longrightarrow>
       m \<in> fst ` set mm \<or> m \<in> set (concat (map snd mm)))"
proof -
  note r = all_potential_duplicates_records [OF assms]
  have 2: "vs \<noteq> [] \<and>
       (\<forall>v \<in> set vs. \<exists>n s. v = match_record n s \<and> 8 / 10 < s \<and> s < 1 \<and>
          get_similarity_score P (PyStr (fst (canonical_pair (k, n))))
            (PyStr (snd (canonical_pair (k, n)))) = Inr s)"
    if "(k, vs) \<in> set mm" for k vs
    using r that unfolding all_records_def is_record_def by blast
  have 3: "m \<in> fst ` set mm \<or> m \<in> set (concat (map snd mm))"
    if "c \<in> set (sort_clusters (consolidate mm))" "m \<in> set c" for c m
  proof -
    from that(1) have "c \<in> set (consolidate mm)"
      by (simp add: sort_clusters_def)
    from consolidate_members [OF this] obtain k sims where ks: "(k, sims) \<in> set mm"
      "c = unique_cluster k sims"
      by blast
    with that(2) have "m = k \<or> m \<in> set sims"
      by (simp add: set_unique_cluster)
    with ks(1) show ?thesis by force
  qed
  from r 2 3 show ?thesis by blast
qed

theorem unmatched_names_dropped_witness:
  "all_potential_duplicates sample_provider
     (block_names (map preprocess_name
        [PyStr ''abcde'', PyStr ''abcdf'', PyStr ''abcgf'', PyStr ''zed''])) =
   Inr sample_match_map \<and>
   ''zed'' \<notin> fst ` set sample_match_map \<and>
   ''zed'' \<notin> set (concat (map snd sample_match_map)) \<and>
   ''zed'' \<notin> set (concat (sort_clusters (consolidate sample_match_map)))"
proof -
  have k: "''zed'' \<notin> fst ` set sample_match_map" by code_simp
  have v: "''zed'' \<notin> set (concat (map snd sample_match_map))" by code_simp
  have "''zed'' \<notin> set (concat (sort_clusters (consolidate sample_match_map)))"
  proof
    assume "''zed'' \<in> set (concat (sort_clusters (consolidate sample_match_map)))"
    then obtain c where c: "c \<in> set (sort_clusters (consolidate sample_match_map)) \<and> ''zed'' \<in> set c"
      by auto
    from unmatched_names_dropped [OF sample_all, THEN conjunct2, THEN conjunct2, rule_format, OF c] k v
    show False by simp
  qed
  with k v show ?thesis
    by (intro conjI sample_all)
qed

end
